theory Spec2Isabelle
  imports Main
begin

section \<open>Strings and JSON values as the chat view sees them\<close>

text \<open>
  A JavaScript string is modelled as a \<^typ>\<open>string\<close>: one \<^typ>\<open>char\<close> per code unit,
  restricted to the code units 0..255. The stream is modelled after decoding: a chunk is
  the text that \<^verbatim>\<open>decoder.decode(value, {stream: true})\<close> hands to the loop for one read.
\<close>

abbreviation LF :: char where "LF \<equiv> CHR 0x0A"
abbreviation CR :: char where "CR \<equiv> CHR 0x0D"

text \<open>
  The code units below 256 that \<^verbatim>\<open>String.prototype.trim\<close> removes: TAB, LF, VT, FF, CR,
  SPACE and NO-BREAK SPACE.
\<close>

definition is_space :: "char \<Rightarrow> bool" where
  "is_space c \<longleftrightarrow> c \<in> {CHR 0x09, LF, CHR 0x0B, CHR 0x0C, CR, CHR 0x20, CHR 0xA0}"

definition trim :: "string \<Rightarrow> string" where
  "trim s = rev (dropWhile is_space (rev (dropWhile is_space s)))"

text \<open>
  \<^verbatim>\<open>buffer.split(/\r?\n/)\<close>: every LF ends a segment, and a CR directly before that LF
  belongs to the separator. The result is never empty.
\<close>

fun split_lines :: "string \<Rightarrow> string list" where
  "split_lines [] = [[]]"
| "split_lines (c # cs) =
     (if c = LF then [] # split_lines cs
      else if c = CR \<and> take 1 cs = [LF] then [] # split_lines (drop 1 cs)
      else (case split_lines cs of [] \<Rightarrow> [[c]] | l # ls \<Rightarrow> (c # l) # ls))"

definition ends_with_newline :: "string \<Rightarrow> bool" where
  "ends_with_newline s \<longleftrightarrow> s \<noteq> [] \<and> last s = LF"

text \<open>
  A value produced by \<^verbatim>\<open>JSON.parse\<close>. A number is represented by what the code can
  observe of it, its decimal rendering \<^verbatim>\<open>String(n)\<close> (so zero is \<open>''0''\<close>). An object is
  the list of its members in source order; a later member overrides an earlier one of the
  same name.
\<close>

datatype json =
    JNull
  | JBool bool
  | JNum string
  | JStr string
  | JArr "json list"
  | JObj "(string \<times> json) list"

text \<open>
  \<^verbatim>\<open>JSON.parse\<close> itself is a parameter of the model: a function that returns \<open>None\<close>
  where \<^verbatim>\<open>JSON.parse\<close> raises a SyntaxError.
\<close>

type_synonym parser = "string \<Rightarrow> json option"

text \<open>
  Property access \<^verbatim>\<open>v.k\<close> on a value that is neither null nor undefined, for the six names
  the code reads (event, data, delta, content, text, value): none of them is inherited
  from a prototype, so only an object can have one. \<open>None\<close> is \<^verbatim>\<open>undefined\<close>.
\<close>

definition get_prop :: "json \<Rightarrow> string \<Rightarrow> json option" where
  "get_prop v k = (case v of JObj kvs \<Rightarrow> map_of (rev kvs) k | _ \<Rightarrow> None)"

text \<open>Optional chaining \<^verbatim>\<open>v?.k\<close>.\<close>

fun opt_prop :: "json option \<Rightarrow> string \<Rightarrow> json option" where
  "opt_prop None k = None"
| "opt_prop (Some JNull) k = None"
| "opt_prop (Some v) k = get_prop v k"

fun truthy :: "json option \<Rightarrow> bool" where
  "truthy None = False"
| "truthy (Some JNull) = False"
| "truthy (Some (JBool b)) = b"
| "truthy (Some (JNum s)) = (s \<noteq> ''0'')"
| "truthy (Some (JStr s)) = (s \<noteq> [])"
| "truthy (Some (JArr xs)) = True"
| "truthy (Some (JObj kvs)) = True"

text \<open>
  The string that \<^verbatim>\<open>acc += v\<close> appends for a value \<open>v\<close>; \<open>None\<close> is the TypeError raised
  for an object whose own member \<^verbatim>\<open>toString\<close> hides the inherited method. An array is
  joined with commas, a null element giving the empty string.
\<close>

fun to_str :: "json \<Rightarrow> string option" and join_strs :: "json list \<Rightarrow> string option" where
  "to_str JNull = Some ''null''"
| "to_str (JBool b) = Some (if b then ''true'' else ''false'')"
| "to_str (JNum s) = Some s"
| "to_str (JStr s) = Some s"
| "to_str (JArr xs) = join_strs xs"
| "to_str (JObj kvs) =
     (if ''toString'' \<in> set (map fst kvs) then None else Some ''[object Object]'')"
| "join_strs [] = Some []"
| "join_strs (x # xs) =
     (case (case x of JNull \<Rightarrow> Some [] | _ \<Rightarrow> to_str x) of
        None \<Rightarrow> None
      | Some s \<Rightarrow>
          (if xs = [] then Some s
           else (case join_strs xs of None \<Rightarrow> None | Some r \<Rightarrow> Some (s @ '','' @ r))))"

text \<open>
  The values \<^verbatim>\<open>for (const part of contentParts)\<close> runs over; \<open>None\<close> is the TypeError
  for a value that is not iterable. A string is iterated character by character.
\<close>

fun iter_parts :: "json \<Rightarrow> json list option" where
  "iter_parts (JArr xs) = Some xs"
| "iter_parts (JStr s) = Some (map (\<lambda>c. JStr [c]) s)"
| "iter_parts v = None"

section \<open>The chat view\<close>

datatype role = User | Assistant

record message =
  role :: role
  text_of :: string

record request =
  url :: string
  http_method :: string
  content :: string

text \<open>
  The state of the component: the four state cells, the accumulator held in the ref, and,
  as a device of the model, the requests sent so far.
\<close>

record chat_state =
  userInput :: string
  messages :: "message list"
  inputDisabled :: bool
  threadId :: "string option"
  assistantMessageRef :: string
  requests :: "request list"

text \<open>What the message endpoint does for one request.\<close>

datatype stream_end = Done | ReadError

datatype fetch_outcome =
    FetchThrows
  | NoBody
  | Body "string list" stream_end

definition appendMessage :: "role \<Rightarrow> string \<Rightarrow> chat_state \<Rightarrow> chat_state" where
  "appendMessage r t st = st\<lparr>messages := messages st @ [\<lparr>role = r, text_of = t\<rparr>]\<rparr>"

text \<open>The updater handed to \<^verbatim>\<open>setMessages\<close> (lines 168 to 183).\<close>

definition set_assistant :: "string \<Rightarrow> message list \<Rightarrow> message list" where
  "set_assistant acc prevMessages =
     (if prevMessages \<noteq> [] \<and> role (last prevMessages) = Assistant
      then butlast prevMessages @ [\<lparr>role = Assistant, text_of = acc\<rparr>]
      else prevMessages @ [\<lparr>role = Assistant, text_of = acc\<rparr>])"

text \<open>\<^verbatim>\<open>part?.text?.value || ""\<close>\<close>

definition part_content :: "json \<Rightarrow> json" where
  "part_content part =
     (case opt_prop (opt_prop (Some part) ''text'') ''value'' of
        None \<Rightarrow> JStr []
      | Some v \<Rightarrow> if truthy (Some v) then v else JStr [])"

text \<open>
  The loop over the content parts (lines 161 to 184). The flag of the result says that an
  exception left the loop; the parts before it have been applied.
\<close>

fun add_parts :: "json list \<Rightarrow> chat_state \<Rightarrow> chat_state \<times> bool" where
  "add_parts [] st = (st, False)"
| "add_parts (part # parts) st =
     (case to_str (part_content part) of
        None \<Rightarrow> (st, True)
      | Some s \<Rightarrow>
          add_parts parts
            (st\<lparr>assistantMessageRef := assistantMessageRef st @ s,
                messages := set_assistant (assistantMessageRef st @ s) (messages st)\<rparr>))"

text \<open>\<^verbatim>\<open>parsed.data?.delta?.content\<close>, for a \<open>parsed\<close> that is not null.\<close>

definition content_of :: "json \<Rightarrow> json option" where
  "content_of parsed = opt_prop (opt_prop (get_prop parsed ''data'') ''delta'') ''content''"

text \<open>
  The body of the inner \<^verbatim>\<open>try\<close> after \<^verbatim>\<open>JSON.parse\<close> (lines 158 to 189). The flag says
  that an exception was thrown; it is caught at line 191.
\<close>

definition process_event :: "json \<Rightarrow> chat_state \<Rightarrow> chat_state \<times> bool" where
  "process_event parsed st =
     (if parsed = JNull then (st, True)
      else
        (case (if get_prop parsed ''event'' = Some (JStr ''thread.message.delta'')
                  \<and> truthy (content_of parsed)
               then (case content_of parsed of
                       None \<Rightarrow> (st, True)
                     | Some contentParts \<Rightarrow>
                         (case iter_parts contentParts of
                            None \<Rightarrow> (st, True)
                          | Some parts \<Rightarrow> add_parts parts st))
               else (st, False)) of
           (st1, True) \<Rightarrow> (st1, True)
         | (st1, False) \<Rightarrow>
             (if get_prop parsed ''event'' = Some (JStr ''thread.message.completed'')
              then (st1\<lparr>inputDisabled := False\<rparr>, False)
              else (st1, False))))"

text \<open>\<^verbatim>\<open>if (line.startsWith("data: ")) line = line.slice("data: ".length)\<close>\<close>

definition strip_data :: "string \<Rightarrow> string" where
  "strip_data line = (if take 6 line = ''data: '' then drop 6 line else line)"

datatype flow = Continue | Break

text \<open>
  One pass through the body of \<^verbatim>\<open>for (let line of lines)\<close> (lines 140 to 196), on the
  component state and the local variable \<^verbatim>\<open>buffer\<close>.
\<close>

definition line_step :: "parser \<Rightarrow> string \<Rightarrow> chat_state \<Rightarrow> string \<Rightarrow> chat_state \<times> string \<times> flow" where
  "line_step parse line0 st buffer =
     (let line1 = trim line0 in
      if line1 = [] then (st, buffer, Continue)
      else
        let line = strip_data line1 in
        if line = ''[DONE]'' then (st\<lparr>inputDisabled := False\<rparr>, buffer, Break)
        else
          (case parse line of
             None \<Rightarrow> (st, line, Continue)
           | Some parsed \<Rightarrow>
               (case process_event parsed st of
                  (st1, True) \<Rightarrow> (st1, line, Continue)
                | (st1, False) \<Rightarrow> (st1, buffer, Continue))))"

fun process_lines :: "parser \<Rightarrow> string list \<Rightarrow> chat_state \<Rightarrow> string \<Rightarrow> chat_state \<times> string" where
  "process_lines parse [] st buffer = (st, buffer)"
| "process_lines parse (line # lines) st buffer =
     (case line_step parse line st buffer of
        (st1, buffer1, Break) \<Rightarrow> (st1, buffer1)
      | (st1, buffer1, Continue) \<Rightarrow> process_lines parse lines st1 buffer1)"

text \<open>One iteration of \<^verbatim>\<open>while (true)\<close> whose read delivered a chunk (lines 127 to 197).\<close>

definition read_chunk :: "parser \<Rightarrow> string \<Rightarrow> chat_state \<Rightarrow> string \<Rightarrow> chat_state \<times> string" where
  "read_chunk parse chunk st buffer0 =
     (let buffer = buffer0 @ chunk;
          lines = split_lines buffer
      in if \<not> ends_with_newline buffer
         then process_lines parse (butlast lines) st (last lines)
         else process_lines parse lines st [])"

text \<open>
  The loop over the reads: the body's stream is the finite list of chunks its reads
  deliver before the read that reports \<^verbatim>\<open>done\<close> or throws.
\<close>

fun consume :: "parser \<Rightarrow> string list \<Rightarrow> chat_state \<Rightarrow> string \<Rightarrow> chat_state \<times> string" where
  "consume parse [] st buffer = (st, buffer)"
| "consume parse (chunk # chunks) st buffer =
     (case read_chunk parse chunk st buffer of
        (st1, buffer1) \<Rightarrow> consume parse chunks st1 buffer1)"

text \<open>Lines 90 to 95, after both guards have passed.\<close>

definition begin_submit :: "string \<Rightarrow> bool \<Rightarrow> chat_state \<Rightarrow> chat_state" where
  "begin_submit text displayUserMessage st =
     (let st1 = (if displayUserMessage then appendMessage User text st else st)
      in st1\<lparr>userInput := [], inputDisabled := True\<rparr>)"

definition message_request :: "string \<Rightarrow> string \<Rightarrow> request" where
  "message_request tid text =
     \<lparr>url = ''/api/assistants/threads/'' @ tid @ ''/messages'',
      http_method = ''POST'', content = text\<rparr>"

text \<open>
  Lines 97 to 203: the request, the stream loop and the final re-enabling. A request that
  is sent is recorded in \<open>requests\<close>.
\<close>

definition run_request :: "parser \<Rightarrow> fetch_outcome \<Rightarrow> string \<Rightarrow> string \<Rightarrow> chat_state \<Rightarrow> chat_state" where
  "run_request parse net tid text st1 =
     (let st2 = st1\<lparr>requests := requests st1 @ [message_request tid text]\<rparr>
      in (case net of
            FetchThrows \<Rightarrow> st2\<lparr>inputDisabled := False\<rparr>
          | NoBody \<Rightarrow> st2\<lparr>inputDisabled := False\<rparr>
          | Body chunks e \<Rightarrow>
              (fst (consume parse chunks (st2\<lparr>assistantMessageRef := []\<rparr>) []))
                \<lparr>inputDisabled := False\<rparr>))"

definition sendMessage :: "parser \<Rightarrow> fetch_outcome \<Rightarrow> string \<Rightarrow> bool \<Rightarrow> chat_state \<Rightarrow> chat_state" where
  "sendMessage parse net text displayUserMessage st =
     (if trim text = [] then st
      else
        (case threadId st of
           None \<Rightarrow> st
         | Some tid \<Rightarrow>
             if tid = [] then st
             else run_request parse net tid text (begin_submit text displayUserMessage st)))"

section \<open>The thread bootstrap endpoint\<close>

record thread =
  thread_id :: string

datatype 'a outcome = Resolves 'a | Rejects

text \<open>
  The body of a response is kept as the value handed to \<^verbatim>\<open>JSON.stringify\<close>.
\<close>

record response =
  status :: nat
  headers :: "(string \<times> string) list"
  body :: json

definition POST :: "thread outcome \<Rightarrow> response" where
  "POST create =
     (case create of
        Resolves thread \<Rightarrow>
          \<lparr>status = 200, headers = [(''Content-Type'', ''application/json'')],
           body = JObj [(''threadId'', JStr (thread_id thread))]\<rparr>
      | Rejects \<Rightarrow>
          \<lparr>status = 500, headers = [(''Content-Type'', ''application/json'')],
           body = JObj [(''error'', JStr ''Error interno del servidor.'')]\<rparr>)"

section \<open>Concrete inputs used in the examples\<close>

text \<open>The two frames of the example stream of the specification, without the prefix.\<close>

definition frame_hel :: string where
  "frame_hel = ''{\"event\":\"thread.message.delta\",\"data\":{\"delta\":{\"content\":[{\"text\":{\"value\":\"Hel\"}}]}}}''"

definition frame_lo :: string where
  "frame_lo = ''{\"event\":\"thread.message.delta\",\"data\":{\"delta\":{\"content\":[{\"text\":{\"value\":\"lo\"}}]}}}''"

definition frame_completed :: string where
  "frame_completed = ''{\"event\":\"thread.message.completed\"}''"

text \<open>
  The event \<^verbatim>\<open>{"event":"thread.message.delta","data":{"delta":{"content":[...]}}}\<close> whose
  content parts are \<^verbatim>\<open>{"text":{"value":v}}\<close> for the given fragments.
\<close>

definition delta_event :: "string list \<Rightarrow> json" where
  "delta_event vs =
     JObj [(''event'', JStr ''thread.message.delta''),
           (''data'', JObj [(''delta'', JObj [(''content'',
              JArr (map (\<lambda>v. JObj [(''text'', JObj [(''value'', JStr v)])]) vs))])])]"

text \<open>
  \<^verbatim>\<open>JSON.parse\<close> on the lines that the examples below hand to it: the two frames, a
  completion event, the literal \<^verbatim>\<open>null\<close>, and SyntaxError on the others (none of which
  is JSON).
\<close>

definition JSON_parse_examples :: parser where
  "JSON_parse_examples s =
     (if s = frame_hel then Some (delta_event [''Hel''])
      else if s = frame_lo then Some (delta_event [''lo''])
      else if s = frame_completed then Some (JObj [(''event'', JStr ''thread.message.completed'')])
      else if s = ''null'' then Some JNull
      else None)"

definition st0 :: chat_state where
  "st0 = \<lparr>userInput = ''hola'', messages = [], inputDisabled = False,
          threadId = Some ''thread_1'', assistantMessageRef = [], requests = []\<rparr>"

text \<open>A delta whose content is the string \<^verbatim>\<open>"x"\<close> instead of an array.\<close>

definition content_x :: json where
  "content_x = JObj [(''event'', JStr ''thread.message.delta''),
               (''data'', JObj [(''delta'', JObj [(''content'', JStr ''x'')])])]"

section \<open>Predicates used in the statements\<close>

text \<open>
  The parsed values on which the body of the inner \<^verbatim>\<open>try\<close> raises an exception: null
  (reading \<^verbatim>\<open>parsed.event\<close>), a delta whose truthy content cannot be iterated, and a part
  whose text value cannot be converted to a string.
\<close>

definition raises :: "json \<Rightarrow> bool" where
  "raises parsed \<longleftrightarrow>
     parsed = JNull \<or>
     (get_prop parsed ''event'' = Some (JStr ''thread.message.delta'') \<and>
      truthy (content_of parsed) \<and>
      (case content_of parsed of
         None \<Rightarrow> True
       | Some contentParts \<Rightarrow>
           (case iter_parts contentParts of
              None \<Rightarrow> True
            | Some parts \<Rightarrow> list_ex (\<lambda>part. to_str (part_content part) = None) parts)))"

text \<open>A content delta whose content is an array or a string that is not empty.\<close>

definition delta_with_parts :: "json \<Rightarrow> bool" where
  "delta_with_parts parsed \<longleftrightarrow>
     get_prop parsed ''event'' = Some (JStr ''thread.message.delta'') \<and>
     (case content_of parsed of
        Some (JArr xs) \<Rightarrow> True
      | Some (JStr s) \<Rightarrow> s \<noteq> []
      | _ \<Rightarrow> False)"

text \<open>
  The lines of a text that are followed by a line break, and the rest after the last one.
\<close>

definition complete_lines :: "string \<Rightarrow> string list" where
  "complete_lines s = butlast (split_lines s)"

definition tail_of :: "string \<Rightarrow> string" where
  "tail_of s = last (split_lines s)"

text \<open>
  A batch of lines in which every line is blank, or a frame that parses and is processed
  without an exception, or the terminator followed by blank lines only.
\<close>

fun well_formed :: "parser \<Rightarrow> string list \<Rightarrow> bool" where
  "well_formed parse [] = True"
| "well_formed parse (line # lines) =
     (if trim line = [] then well_formed parse lines
      else if strip_data (trim line) = ''[DONE]'' then list_all (\<lambda>l. trim l = []) lines
      else (case parse (strip_data (trim line)) of
              None \<Rightarrow> False
            | Some parsed \<Rightarrow> \<not> raises parsed \<and> well_formed parse lines))"


text \<open>
  The text fragment of a content part: the string at \<^verbatim>\<open>text.value\<close>, or the empty string
  for a part without one. The fragments of a content delta are those of the parts of its
  content array; an event of another kind, or a delta without content, has none. The
  fragments of a line are those of the event it parses to, and none for a blank line.
  \<open>None\<close> marks what is not such a frame: a part whose text value is not a string, a
  delta whose content is not an array, the value null, a line that does not parse, the
  terminator.
\<close>

definition part_fragment :: "json \<Rightarrow> string option" where
  "part_fragment part =
     (case opt_prop (opt_prop (Some part) ''text'') ''value'' of
        None \<Rightarrow> Some []
      | Some (JStr v) \<Rightarrow> Some v
      | Some _ \<Rightarrow> None)"

definition event_fragments :: "json \<Rightarrow> string list option" where
  "event_fragments parsed =
     (if parsed = JNull then None
      else if get_prop parsed ''event'' = Some (JStr ''thread.message.delta'')
      then (case content_of parsed of
              Some (JArr parts) \<Rightarrow> those (map part_fragment parts)
            | c \<Rightarrow> if truthy c then None else Some [])
      else Some [])"

definition frame_fragments :: "parser \<Rightarrow> string \<Rightarrow> string list option" where
  "frame_fragments parse line =
     (if trim line = [] then Some []
      else if strip_data (trim line) = ''[DONE]'' then None
      else (case parse (strip_data (trim line)) of
              None \<Rightarrow> None
            | Some parsed \<Rightarrow> event_fragments parsed))"

text \<open>The end of a stream: nothing more, or the terminator and blank lines.\<close>

fun is_ending :: "string list \<Rightarrow> bool" where
  "is_ending [] = True"
| "is_ending (line # lines) =
     (strip_data (trim line) = ''[DONE]'' \<and> list_all (\<lambda>l. trim l = []) lines)"

text \<open>The state after the fragments \<open>vs\<close> have been accumulated, one after the other.\<close>

definition with_fragments :: "string list \<Rightarrow> chat_state \<Rightarrow> chat_state" where
  "with_fragments vs st =
     (if vs = [] then st
      else st\<lparr>assistantMessageRef := assistantMessageRef st @ concat vs,
              messages := set_assistant (assistantMessageRef st @ concat vs) (messages st)\<rparr>)"


text \<open>
  What a stream can do to the log: leave it, or set the assistant message at its end
  (replacing a last message of role assistant, appending otherwise).
\<close>

definition log_step :: "message list \<Rightarrow> message list \<Rightarrow> bool" where
  "log_step ms ms' \<longleftrightarrow> ms' = ms \<or> (\<exists>acc. ms' = set_assistant acc ms)"

section \<open>Properties\<close>

subsection \<open>Trimming\<close>

lemma all_dropWhile: "(\<forall>x\<in>set (dropWhile P s). P x) \<longleftrightarrow> (\<forall>x\<in>set s. P x)"
  by (induction s) auto

lemma trim_empty_iff: "trim s = [] \<longleftrightarrow> list_all is_space s"
  by (simp add: trim_def dropWhile_eq_Nil_conv all_dropWhile list_all_iff)

subsection \<open>The bootstrap endpoint\<close>

text \<open>
  C7: the POST handler answers 200 with the identifier of the created thread in the field
  \<^verbatim>\<open>threadId\<close> when the creation call resolves, and 500 with a field \<^verbatim>\<open>error\<close> when it
  throws.
\<close>

theorem POST_contract:
  "status (POST (Resolves t)) = 200 \<and>
   get_prop (body (POST (Resolves t))) ''threadId'' = Some (JStr (thread_id t)) \<and>
   status (POST Rejects) = 500 \<and>
   get_prop (body (POST Rejects)) ''error'' = Some (JStr ''Error interno del servidor.'')"
  by (simp add: POST_def get_prop_def)

subsection \<open>Submit\<close>

text \<open>
  C4: when the text is empty or consists of white space only, or when no thread identifier
  is available, \<open>sendMessage\<close> returns the state it was given: the log, the disabled flag
  and the input text are unchanged, and no request has been recorded.
\<close>

theorem submit_noop:
  "list_all is_space text \<or> threadId st = None \<Longrightarrow>
   sendMessage parse net text displayUserMessage st = st"
  by (auto simp: sendMessage_def trim_empty_iff)

theorem submit_noop_witness:
  "list_all is_space ''  '' \<and>
   sendMessage JSON_parse_examples (Body [''data: [DONE]'' @ [LF]] Done) ''  '' True st0 = st0 \<and>
   threadId (st0\<lparr>threadId := None\<rparr>) = None \<and>
   sendMessage JSON_parse_examples NoBody ''hola'' True (st0\<lparr>threadId := None\<rparr>)
     = st0\<lparr>threadId := None\<rparr>"
  using submit_noop [of "''  ''" st0 JSON_parse_examples "Body [''data: [DONE]'' @ [LF]] Done" True]
    submit_noop [of "''hola''" "st0\<lparr>threadId := None\<rparr>" JSON_parse_examples NoBody True]
  by (simp add: is_space_def)

text \<open>
  C8, as stated, fails for a text that is not empty but blank: a single space with a valid
  thread identifier leaves the state as it was, so no user message is appended and the
  input is not cleared.
\<close>

theorem submit_blank_counterexample:
  "'' '' \<noteq> [] \<and> threadId st0 = Some ''thread_1'' \<and>
   sendMessage JSON_parse_examples (Body [''data: [DONE]'' @ [LF]] Done) '' '' True
       (st0\<lparr>userInput := '' ''\<rparr>)
     = st0\<lparr>userInput := '' ''\<rparr>"
  by (simp add: sendMessage_def trim_def is_space_def st0_def)

text \<open>
  C8, amended: for a text with at least one character that is not white space and a
  thread identifier that is present and not empty, \<open>sendMessage\<close> runs the request on the
  state \<open>begin_submit\<close> built, in which exactly one user message has been appended (none
  when the display is suppressed), the input text is empty and the input is disabled.
\<close>

theorem submit_begins:
  "\<not> list_all is_space text \<Longrightarrow> threadId st = Some tid \<Longrightarrow> tid \<noteq> [] \<Longrightarrow>
   sendMessage parse net text displayUserMessage st
     = run_request parse net tid text (begin_submit text displayUserMessage st) \<and>
   messages (begin_submit text displayUserMessage st)
     = messages st @ (if displayUserMessage then [\<lparr>role = User, text_of = text\<rparr>] else []) \<and>
   userInput (begin_submit text displayUserMessage st) = [] \<and>
   inputDisabled (begin_submit text displayUserMessage st)"
  by (auto simp: sendMessage_def trim_empty_iff begin_submit_def appendMessage_def)

theorem submit_begins_witness:
  "\<not> list_all is_space ''hola'' \<and> threadId st0 = Some ''thread_1'' \<and> ''thread_1'' \<noteq> [] \<and>
   sendMessage JSON_parse_examples NoBody ''hola'' True st0
     = run_request JSON_parse_examples NoBody ''thread_1'' ''hola'' (begin_submit ''hola'' True st0) \<and>
   messages (begin_submit ''hola'' True st0) = [\<lparr>role = User, text_of = ''hola''\<rparr>] \<and>
   messages (begin_submit ''hola'' False st0) = [] \<and>
   userInput (begin_submit ''hola'' True st0) = [] \<and>
   inputDisabled (begin_submit ''hola'' True st0)"
  using submit_begins [of "''hola''" st0 "''thread_1''" JSON_parse_examples NoBody True]
    submit_begins [of "''hola''" st0 "''thread_1''" JSON_parse_examples NoBody False]
  by (simp add: is_space_def st0_def)

subsection \<open>What a batch of lines can change\<close>

lemma add_parts_result:
  "add_parts parts st = (st1, b) \<Longrightarrow>
     b = list_ex (\<lambda>part. to_str (part_content part) = None) parts \<and>
     inputDisabled st1 = inputDisabled st \<and> requests st1 = requests st \<and>
     userInput st1 = userInput st \<and> threadId st1 = threadId st"
  by (induction parts arbitrary: st) (auto split: option.splits)

lemma process_event_raises: "snd (process_event parsed st) = raises parsed"
  by (auto simp: process_event_def raises_def split: option.splits prod.splits bool.splits
      dest!: add_parts_result)

lemma process_event_result:
  "process_event parsed st = (st1, b) \<Longrightarrow>
     b = raises parsed \<and> (inputDisabled st1 \<longrightarrow> inputDisabled st) \<and> requests st1 = requests st \<and>
     userInput st1 = userInput st \<and> threadId st1 = threadId st"
  by (auto simp: process_event_def raises_def split: option.splits prod.splits bool.splits if_splits
      dest!: add_parts_result)

lemma line_step_result:
  "line_step parse line st buffer = (st1, buffer1, f) \<Longrightarrow>
     (inputDisabled st1 \<longrightarrow> inputDisabled st) \<and> requests st1 = requests st \<and>
     userInput st1 = userInput st \<and> threadId st1 = threadId st \<and>
     (f = Break \<longrightarrow> \<not> inputDisabled st1)"
  by (auto simp: line_step_def Let_def split: option.splits prod.splits bool.splits if_splits
      dest!: process_event_result)

lemma process_lines_result:
  "process_lines parse lines st buffer = (st1, buffer1) \<Longrightarrow>
     (inputDisabled st1 \<longrightarrow> inputDisabled st) \<and> requests st1 = requests st \<and>
     userInput st1 = userInput st \<and> threadId st1 = threadId st"
proof (induction lines arbitrary: st buffer)
  case Nil
  then show ?case by simp
next
  case (Cons line lines)
  obtain st2 buffer2 f where step: "line_step parse line st buffer = (st2, buffer2, f)"
    by (metis prod_cases3)
  show ?case
  proof (cases f)
    case Continue
    with Cons.prems step have "process_lines parse lines st2 buffer2 = (st1, buffer1)" by simp
    from Cons.IH [OF this] line_step_result [OF step] show ?thesis by auto
  next
    case Break
    with Cons.prems step have "st1 = st2" by simp
    with line_step_result [OF step] show ?thesis by auto
  qed
qed

subsection \<open>The terminator\<close>

lemma strip_data_done: "strip_data l = ''[DONE]'' \<Longrightarrow> l \<noteq> []"
  by (auto simp: strip_data_def)

lemma line_step_done:
  "strip_data (trim line) = ''[DONE]'' \<Longrightarrow>
   line_step parse line st buffer = (st\<lparr>inputDisabled := False\<rparr>, buffer, Break)"
  by (frule strip_data_done) (simp add: line_step_def Let_def)

text \<open>
  C5: in the batch of lines of one read, a line that is the terminator after trimming and
  prefix stripping ends the batch: the lines after it are not processed, and the input is
  enabled after the batch, whatever the lines before it were (lines that fail to parse
  included).
\<close>

theorem done_reenables:
  "strip_data (trim line) = ''[DONE]'' \<Longrightarrow>
   process_lines parse (pre @ line # post) st buffer = process_lines parse (pre @ [line]) st buffer \<and>
   \<not> inputDisabled (fst (process_lines parse (pre @ line # post) st buffer))"
proof (induction pre arbitrary: st buffer)
  case Nil
  then show ?case by (simp add: line_step_done)
next
  case (Cons p pre)
  obtain st2 buffer2 f where step: "line_step parse p st buffer = (st2, buffer2, f)"
    by (metis prod_cases3)
  show ?case
  proof (cases f)
    case Continue
    with step Cons.IH [OF Cons.prems, of st2 buffer2] show ?thesis by auto
  next
    case Break
    with step line_step_result [OF step] show ?thesis by simp
  qed
qed

theorem done_reenables_witness:
  "strip_data (trim '' data: [DONE] '') = ''[DONE]'' \<and>
   process_lines JSON_parse_examples ([''oops''] @ '' data: [DONE] '' # [''data: '' @ frame_hel])
       (st0\<lparr>inputDisabled := True\<rparr>) []
     = process_lines JSON_parse_examples ([''oops''] @ ['' data: [DONE] '']) (st0\<lparr>inputDisabled := True\<rparr>) [] \<and>
   \<not> inputDisabled (fst (process_lines JSON_parse_examples
     ([''oops''] @ '' data: [DONE] '' # [''data: '' @ frame_hel]) (st0\<lparr>inputDisabled := True\<rparr>) [])) \<and>
   process_lines JSON_parse_examples [''oops'', '' data: [DONE] '', ''data: '' @ frame_hel]
       (st0\<lparr>inputDisabled := True\<rparr>) []
     = (st0, ''oops'')"
  using done_reenables [of "'' data: [DONE] ''" JSON_parse_examples "[''oops'']" "[''data: '' @ frame_hel]"
      "st0\<lparr>inputDisabled := True\<rparr>" "[]"]
  by code_simp

subsection \<open>The end of a submission\<close>



subsection \<open>Events of any shape\<close>

text \<open>
  C10, as stated, fails: the line \<^verbatim>\<open>null\<close> parses, and reading \<^verbatim>\<open>parsed.event\<close> then throws
  (the catch branch stores the line in the buffer); and a delta whose content is the
  string \<^verbatim>\<open>"x"\<close>, not an array, appends an assistant message with the empty text.
\<close>

theorem event_processing_counterexample:
  "JSON_parse_examples ''null'' = Some JNull \<and>
   snd (process_event JNull st0) \<and>
   line_step JSON_parse_examples ''null'' st0 ''rest'' = (st0, ''null'', Continue) \<and>
   messages st0 = [] \<and>
   process_event content_x st0
     = (st0\<lparr>messages := [\<lparr>role = Assistant, text_of = []\<rparr>]\<rparr>, False)"
  by code_simp

lemma add_parts_no_text:
  "opt_prop (opt_prop (Some part) ''text'') ''value'' = None \<Longrightarrow>
   part_content part = JStr [] \<and>
   add_parts (part # parts) st
     = add_parts parts (st\<lparr>messages := set_assistant (assistantMessageRef st) (messages st)\<rparr>)"
  by (simp add: part_content_def)

lemma process_event_frame:
  "parsed \<noteq> JNull \<Longrightarrow> \<not> delta_with_parts parsed \<Longrightarrow>
   messages (fst (process_event parsed st)) = messages st \<and>
   assistantMessageRef (fst (process_event parsed st)) = assistantMessageRef st"
  by (auto simp: process_event_def delta_with_parts_def split: option.splits json.splits)

lemma line_step_parsed:
  "trim line \<noteq> [] \<Longrightarrow> strip_data (trim line) \<noteq> ''[DONE]'' \<Longrightarrow>
   parse (strip_data (trim line)) = Some parsed \<Longrightarrow>
   line_step parse line st buffer
     = (fst (process_event parsed st),
        if raises parsed then strip_data (trim line) else buffer, Continue)"
  using process_event_raises [of parsed st]
  by (auto simp: line_step_def Let_def split: prod.splits bool.splits)

subsection \<open>The log during a stream\<close>

lemma set_assistant_twice [simp]:
  "set_assistant a (set_assistant b ms) = set_assistant a ms"
  by (simp add: set_assistant_def)

lemma set_assistant_last [simp]:
  "set_assistant a ms \<noteq> [] \<and> last (set_assistant a ms) = \<lparr>role = Assistant, text_of = a\<rparr>"
  by (simp add: set_assistant_def)

lemma log_step_refl [simp]: "log_step ms ms"
  by (simp add: log_step_def)

lemma log_step_trans: "log_step ms ms1 \<Longrightarrow> log_step ms1 ms2 \<Longrightarrow> log_step ms ms2"
  by (auto simp: log_step_def)

lemma add_parts_log: "log_step (messages st) (messages (fst (add_parts parts st)))"
proof (induction parts arbitrary: st)
  case Nil
  show ?case by simp
next
  case (Cons part parts)
  show ?case
  proof (cases "to_str (part_content part)")
    case None
    then show ?thesis by simp
  next
    case (Some s)
    let ?st1 = "st\<lparr>assistantMessageRef := assistantMessageRef st @ s,
                  messages := set_assistant (assistantMessageRef st @ s) (messages st)\<rparr>"
    have "log_step (messages st) (messages ?st1)" by (auto simp: log_step_def)
    from log_step_trans [OF this Cons.IH [of ?st1]] Some show ?thesis by simp
  qed
qed

lemma process_event_log: "log_step (messages st) (messages (fst (process_event parsed st)))"
  using add_parts_log [of st]
  by (auto simp: process_event_def split: option.splits prod.splits bool.splits)
    (metis fst_conv)+

lemma line_step_log: "log_step (messages st) (messages (fst (line_step parse line st buffer)))"
  using process_event_log [of st]
  by (auto simp: line_step_def Let_def split: option.splits prod.splits bool.splits)
    (metis fst_conv)+

lemma process_lines_log:
  "log_step (messages st) (messages (fst (process_lines parse lines st buffer)))"
proof (induction lines arbitrary: st buffer)
  case Nil
  show ?case by simp
next
  case (Cons line lines)
  obtain st1 buffer1 f where step: "line_step parse line st buffer = (st1, buffer1, f)"
    by (metis prod_cases3)
  with line_step_log [of st parse line buffer] have l1: "log_step (messages st) (messages st1)"
    by simp
  show ?case
  proof (cases f)
    case Continue
    with step log_step_trans [OF l1 Cons.IH [of st1 buffer1]] show ?thesis by simp
  next
    case Break
    with step l1 show ?thesis by simp
  qed
qed

text \<open>
  Whatever the stream delivers, the loop leaves the log as it found it or with the
  assistant message set at its end: no message before the last one changes, and the last
  one changes only when it is an assistant message.
\<close>

lemma consume_log: "log_step (messages st) (messages (fst (consume parse chunks st buffer)))"
proof (induction chunks arbitrary: st buffer)
  case Nil
  show ?case by simp
next
  case (Cons chunk chunks)
  obtain st1 buffer1 where r: "read_chunk parse chunk st buffer = (st1, buffer1)"
    by (cases "read_chunk parse chunk st buffer") auto
  have "log_step (messages st) (messages (fst (read_chunk parse chunk st buffer)))"
    by (simp add: read_chunk_def Let_def process_lines_log)
  with r have "log_step (messages st) (messages st1)" by simp
  from log_step_trans [OF this Cons.IH [of st1 buffer1]] r show ?case by simp
qed

subsection \<open>A reply that follows a reply\<close>

text \<open>
  C2 at a concrete input: two submissions without a displayed user message, one after the
  other, each answered by one delta and the terminator. After the first the log is the
  reply \<open>Hel\<close>; the first delta of the second replaces that completed reply, and the log
  ends as the single message \<open>lo\<close>.
\<close>

theorem completed_reply_overwritten:
  "messages (sendMessage JSON_parse_examples
       (Body [''data: '' @ frame_hel @ [LF] @ ''data: [DONE]'' @ [LF]] Done) ''primero'' False st0)
     = [\<lparr>role = Assistant, text_of = ''Hel''\<rparr>] \<and>
   messages (sendMessage JSON_parse_examples
       (Body [''data: '' @ frame_lo @ [LF] @ ''data: [DONE]'' @ [LF]] Done) ''segundo'' False
       (sendMessage JSON_parse_examples
          (Body [''data: '' @ frame_hel @ [LF] @ ''data: [DONE]'' @ [LF]] Done) ''primero'' False st0))
     = [\<lparr>role = Assistant, text_of = ''lo''\<rparr>]"
  by code_simp

subsection \<open>Splitting a text into lines\<close>

lemma split_lines_nonempty [simp]: "split_lines s \<noteq> []"
  by (induction s rule: split_lines.induct) (auto split: list.splits)

lemma split_lines_single: "split_lines s = [l] \<Longrightarrow> l = s"
  by (induction s arbitrary: l rule: split_lines.induct) (auto split: list.splits if_splits)

lemma split_lines_append:
  "split_lines (a @ b) = butlast (split_lines a) @ split_lines (last (split_lines a) @ b)"
proof (induction a rule: split_lines.induct)
  case 1
  show ?case by simp
next
  case (2 c cs)
  show ?case
  proof (cases "c = LF")
    case True
    with 2 show ?thesis by simp
  next
    case notLF: False
    show ?thesis
    proof (cases "c = CR \<and> take 1 cs = [LF]")
      case True
      then obtain cs' where cs: "cs = LF # cs'" by (cases cs) auto
      with True notLF 2 show ?thesis by simp
    next
      case False
      show ?thesis
      proof (cases cs)
        case Nil
        with notLF False show ?thesis by simp
      next
        case (Cons d ds)
        obtain l ls where sp: "split_lines cs = l # ls" by (cases "split_lines cs") auto
        from Cons False have F2: "\<not> (c = CR \<and> take 1 (cs @ b) = [LF])" by auto
        from 2(3)[OF notLF False] have IH: "split_lines (cs @ b) = butlast (split_lines cs) @ split_lines (last (split_lines cs) @ b)" .
        show ?thesis
        proof (cases ls)
          case Nil
          with sp have "l = cs" by (simp add: split_lines_single)
          with sp Nil notLF False have e: "split_lines (c # cs) = [c # cs]" by simp
          show ?thesis by (simp only: e) (simp del: split_lines.simps)
        next
          case (Cons m ms)
          with sp notLF False F2 IH show ?thesis
            by (auto split: list.splits)
        qed
      qed
    qed
  qed
qed

lemma split_lines_tail: "split_lines (tail_of s) = [tail_of s]"
proof -
  have e: "butlast (split_lines s) @ [last (split_lines s)] = split_lines s" by simp
  have "split_lines s = butlast (split_lines s) @ split_lines (last (split_lines s))"
    using split_lines_append [of s "[]"] by simp
  with e show ?thesis unfolding tail_of_def by (metis same_append_eq)
qed

lemma complete_lines_append:
  "complete_lines (a @ b) = complete_lines a @ complete_lines (tail_of a @ b)"
  by (simp add: complete_lines_def tail_of_def split_lines_append [of a b] butlast_append)

lemma tail_of_append: "tail_of (a @ b) = tail_of (tail_of a @ b)"
  by (simp add: tail_of_def split_lines_append [of a b])

lemma split_lines_no_LF: "l \<in> set (split_lines s) \<Longrightarrow> LF \<notin> set l"
  by (induction s arbitrary: l rule: split_lines.induct) (auto split: list.splits if_splits)

lemma split_lines_LF_two: "split_lines (s @ [LF]) \<noteq> [l]"
proof
  assume a: "split_lines (s @ [LF]) = [l]"
  then have "l = s @ [LF]" by (rule split_lines_single)
  moreover from a have "LF \<notin> set l" using split_lines_no_LF [of l "s @ [LF]"] by simp
  ultimately show False by simp
qed

lemma tail_of_snoc_LF: "last (split_lines (s @ [LF])) = []"
proof (induction s rule: split_lines.induct)
  case 1
  show ?case by simp
next
  case (2 c cs)
  show ?case
  proof (cases "c = LF")
    case True
    with 2 show ?thesis by simp
  next
    case notLF: False
    show ?thesis
    proof (cases cs)
      case Nil
      with notLF show ?thesis by simp
    next
      case (Cons d ds)
      show ?thesis
      proof (cases "c = CR \<and> d = LF")
        case True
        with 2(2) [OF notLF] Cons show ?thesis by simp
      next
        case False
        with Cons have F: "\<not> (c = CR \<and> take 1 cs = [LF])" by auto
        obtain l ls where sp: "split_lines (cs @ [LF]) = l # ls"
          by (cases "split_lines (cs @ [LF])") auto
        with split_lines_LF_two [of cs l] have ne: "ls \<noteq> []" by auto
        from 2(3) [OF notLF F] sp ne have "last ls = []" by simp
        moreover from F Cons have "\<not> (c = CR \<and> take 1 (cs @ [LF]) = [LF])" by auto
        with sp notLF have "split_lines ((c # cs) @ [LF]) = (c # l) # ls" by simp
        ultimately show ?thesis using ne by (simp del: split_lines.simps)
      qed
    qed
  qed
qed

lemma tail_of_newline: "ends_with_newline s \<Longrightarrow> tail_of s = []"
proof -
  assume "ends_with_newline s"
  then have "s = butlast s @ [LF]" by (metis append_butlast_last_id ends_with_newline_def)
  then show ?thesis unfolding tail_of_def using tail_of_snoc_LF [of "butlast s"] by simp
qed

lemma line_step_blank: "trim line = [] \<Longrightarrow> line_step parse line st buffer = (st, buffer, Continue)"
  by (simp add: line_step_def)

lemma process_lines_blanks:
  "list_all (\<lambda>l. trim l = []) lines \<Longrightarrow> process_lines parse lines st buffer = (st, buffer)"
  by (induction lines) (auto simp: line_step_blank)

lemma process_lines_snoc_blank:
  "trim line = [] \<Longrightarrow> process_lines parse (lines @ [line]) st buffer = process_lines parse lines st buffer"
  by (induction lines arbitrary: st buffer) (auto simp: line_step_blank split: prod.splits flow.splits)

lemma read_chunk_lines:
  "read_chunk parse chunk st buffer
     = process_lines parse (complete_lines (buffer @ chunk)) st (tail_of (buffer @ chunk))"
proof (cases "ends_with_newline (buffer @ chunk)")
  case False
  then show ?thesis by (simp add: read_chunk_def Let_def complete_lines_def tail_of_def)
next
  case True
  have "split_lines (buffer @ chunk) = complete_lines (buffer @ chunk) @ [tail_of (buffer @ chunk)]"
    by (simp add: complete_lines_def tail_of_def)
  with True tail_of_newline [OF True] show ?thesis
    by (simp add: read_chunk_def Let_def process_lines_snoc_blank trim_def)
qed

lemma well_formed_blanks: "list_all (\<lambda>l. trim l = []) lines \<Longrightarrow> well_formed parse lines"
  by (induction lines) auto

lemma well_formed_append:
  "well_formed parse (ls1 @ ls2) \<Longrightarrow> well_formed parse ls1 \<and> well_formed parse ls2"
  by (induction ls1) (auto simp: well_formed_blanks split: option.splits if_splits)

lemma process_lines_well_formed:
  "well_formed parse lines \<Longrightarrow>
   process_lines parse lines st buffer = (fst (process_lines parse lines st []), buffer)"
proof (induction lines arbitrary: st)
  case Nil
  show ?case by simp
next
  case (Cons line lines)
  show ?case
  proof (cases "trim line = []")
    case True
    with Cons show ?thesis by (simp add: line_step_blank)
  next
    case nb: False
    show ?thesis
    proof (cases "strip_data (trim line) = ''[DONE]''")
      case True
      then show ?thesis by (simp add: line_step_done)
    next
      case False
      with nb Cons.prems obtain parsed where p: "parse (strip_data (trim line)) = Some parsed"
        and nr: "\<not> raises parsed" and wf: "well_formed parse lines"
        by (auto split: option.splits)
      from line_step_parsed [where parse = parse, OF nb False p] nr
      have "\<And>b. line_step parse line st b = (fst (process_event parsed st), b, Continue)" by simp
      with Cons.IH [OF wf] show ?thesis by simp
    qed
  qed
qed

lemma process_lines_append:
  "well_formed parse (ls1 @ ls2) \<Longrightarrow>
   process_lines parse (ls1 @ ls2) st buffer
     = process_lines parse ls2 (fst (process_lines parse ls1 st buffer)) buffer"
proof (induction ls1 arbitrary: st)
  case Nil
  show ?case by simp
next
  case (Cons line lines)
  show ?case
  proof (cases "trim line = []")
    case True
    with Cons show ?thesis by (simp add: line_step_blank)
  next
    case nb: False
    show ?thesis
    proof (cases "strip_data (trim line) = ''[DONE]''")
      case True
      with nb Cons.prems have "list_all (\<lambda>l. trim l = []) ls2" by simp
      with True show ?thesis by (simp add: line_step_done process_lines_blanks)
    next
      case False
      with nb Cons.prems obtain parsed where p: "parse (strip_data (trim line)) = Some parsed"
        and nr: "\<not> raises parsed" and wf: "well_formed parse (lines @ ls2)"
        by (auto split: option.splits)
      from line_step_parsed [where parse = parse, OF nb False p] nr
      have "\<And>b. line_step parse line st b = (fst (process_event parsed st), b, Continue)" by simp
      with Cons.IH [OF wf] show ?thesis by simp
    qed
  qed
qed

lemma consume_lines:
  "split_lines buffer = [buffer] \<Longrightarrow>
   well_formed parse (complete_lines (buffer @ concat chunks)) \<Longrightarrow>
   consume parse chunks st buffer
     = process_lines parse (complete_lines (buffer @ concat chunks)) st
         (tail_of (buffer @ concat chunks))"
proof (induction chunks arbitrary: st buffer)
  case Nil
  then show ?case by (simp add: complete_lines_def tail_of_def)
next
  case (Cons chunk chunks)
  let ?b1 = "tail_of (buffer @ chunk)"
  let ?l1 = "complete_lines (buffer @ chunk)"
  let ?l2 = "complete_lines (?b1 @ concat chunks)"
  have lines: "complete_lines (buffer @ concat (chunk # chunks)) = ?l1 @ ?l2"
    using complete_lines_append [of "buffer @ chunk" "concat chunks"] by simp
  have tail: "tail_of (buffer @ concat (chunk # chunks)) = tail_of (?b1 @ concat chunks)"
    using tail_of_append [of "buffer @ chunk" "concat chunks"] by simp
  from Cons.prems(2) lines have wf: "well_formed parse (?l1 @ ?l2)" by simp
  then have wf1: "well_formed parse ?l1" and wf2: "well_formed parse ?l2"
    using well_formed_append by blast+
  let ?st1 = "fst (process_lines parse ?l1 st [])"
  have r1: "read_chunk parse chunk st buffer = (?st1, ?b1)"
    using process_lines_well_formed [OF wf1, of st ?b1] by (simp add: read_chunk_lines)
  have "consume parse (chunk # chunks) st buffer = consume parse chunks ?st1 ?b1"
    by (simp add: r1)
  also have "\<dots> = process_lines parse ?l2 ?st1 (tail_of (?b1 @ concat chunks))"
    by (rule Cons.IH [OF split_lines_tail wf2])
  also have "\<dots> = process_lines parse (?l1 @ ?l2) st (tail_of (?b1 @ concat chunks))"
    using process_lines_append [OF wf, of st "tail_of (?b1 @ concat chunks)"]
      process_lines_well_formed [OF wf1, of st "tail_of (?b1 @ concat chunks)"]
    by simp
  finally show ?case by (simp only: lines tail)
qed

subsection \<open>Lines that are not JSON\<close>






subsection \<open>Chunk boundaries\<close>

text \<open>
  C1, as stated, fails. A line that is not JSON replaces the carry-over buffer, and with it
  the incomplete tail that the same read had just stored there: the text
  \<^verbatim>\<open>oops\ndata: {frame}\n\<close> yields the reply in one read, and no reply when the second read
  starts four characters into the frame. And a frame after the terminator is dropped when
  it arrives in the same read as the terminator, and processed when it arrives in the next.
\<close>

theorem chunking_counterexample:
  "concat [''oops'' @ [LF] @ ''data: '' @ take 4 frame_hel, drop 4 frame_hel @ [LF]]
     = ''oops'' @ [LF] @ ''data: '' @ frame_hel @ [LF] \<and>
   messages (sendMessage JSON_parse_examples
       (Body [''oops'' @ [LF] @ ''data: '' @ frame_hel @ [LF]] Done) ''hola'' True st0)
     = [\<lparr>role = User, text_of = ''hola''\<rparr>, \<lparr>role = Assistant, text_of = ''Hel''\<rparr>] \<and>
   messages (sendMessage JSON_parse_examples
       (Body [''oops'' @ [LF] @ ''data: '' @ take 4 frame_hel, drop 4 frame_hel @ [LF]] Done)
       ''hola'' True st0)
     = [\<lparr>role = User, text_of = ''hola''\<rparr>] \<and>
   messages (sendMessage JSON_parse_examples
       (Body [''data: [DONE]'' @ [LF] @ ''data: '' @ frame_hel @ [LF]] Done) ''hola'' True st0)
     = [\<lparr>role = User, text_of = ''hola''\<rparr>] \<and>
   messages (sendMessage JSON_parse_examples
       (Body [''data: [DONE]'' @ [LF], ''data: '' @ frame_hel @ [LF]] Done) ''hola'' True st0)
     = [\<lparr>role = User, text_of = ''hola''\<rparr>, \<lparr>role = Assistant, text_of = ''Hel''\<rparr>]"
  by code_simp


text \<open>
  C1, amended: for a stream whose complete lines are well formed (each one blank, or a
  frame that parses and is processed without an exception, or the terminator followed by
  blank lines only), the loop ends in the same state, and \<open>sendMessage\<close> returns the same
  state, whether the text arrives in one read or split at arbitrary places into many.
\<close>

theorem chunking_invariant:
  "well_formed parse (complete_lines (concat chunks)) \<Longrightarrow>
   consume parse chunks st [] = consume parse [concat chunks] st [] \<and>
   sendMessage parse (Body chunks e) text displayUserMessage st
     = sendMessage parse (Body [concat chunks] e) text displayUserMessage st"
proof -
  assume wf: "well_formed parse (complete_lines (concat chunks))"
  have a: "\<And>st. consume parse chunks st [] = consume parse [concat chunks] st []"
    using consume_lines [of "[]" parse chunks] consume_lines [of "[]" parse "[concat chunks]"] wf
    by simp
  then show ?thesis
    by (simp add: sendMessage_def run_request_def Let_def split: option.splits)
qed

theorem chunking_invariant_witness:
  "well_formed JSON_parse_examples (complete_lines (concat
      [''data: '' @ take 4 frame_hel, drop 4 frame_hel @ [CR, LF] @ ''da'',
       ''ta: '' @ frame_lo @ [LF] @ ''data: [DONE]'' @ [LF]])) \<and>
   consume JSON_parse_examples
      [''data: '' @ take 4 frame_hel, drop 4 frame_hel @ [CR, LF] @ ''da'',
       ''ta: '' @ frame_lo @ [LF] @ ''data: [DONE]'' @ [LF]] (st0\<lparr>inputDisabled := True\<rparr>) []
     = consume JSON_parse_examples
      [concat [''data: '' @ take 4 frame_hel, drop 4 frame_hel @ [CR, LF] @ ''da'',
       ''ta: '' @ frame_lo @ [LF] @ ''data: [DONE]'' @ [LF]]] (st0\<lparr>inputDisabled := True\<rparr>) [] \<and>
   messages (sendMessage JSON_parse_examples (Body
      [''data: '' @ take 4 frame_hel, drop 4 frame_hel @ [CR, LF] @ ''da'',
       ''ta: '' @ frame_lo @ [LF] @ ''data: [DONE]'' @ [LF]] Done) ''hola'' True st0)
     = [\<lparr>role = User, text_of = ''hola''\<rparr>, \<lparr>role = Assistant, text_of = ''Hello''\<rparr>]"
  using chunking_invariant [of JSON_parse_examples
      "[''data: '' @ take 4 frame_hel, drop 4 frame_hel @ [CR, LF] @ ''da'',
       ''ta: '' @ frame_lo @ [LF] @ ''data: [DONE]'' @ [LF]]" "st0\<lparr>inputDisabled := True\<rparr>" Done
      "''hola''" True]
  by code_simp

subsection \<open>Accumulating the deltas\<close>

lemma with_fragments_Nil [simp]: "with_fragments [] st = st"
  by (simp add: with_fragments_def)

lemma with_fragments_append:
  "with_fragments ws (with_fragments vs st) = with_fragments (vs @ ws) st"
  by (simp add: with_fragments_def)

lemma part_fragment_str:
  "part_fragment part = Some v \<Longrightarrow> to_str (part_content part) = Some v"
  by (auto simp: part_fragment_def part_content_def split: option.splits json.splits)

lemma add_parts_fragments:
  "those (map part_fragment parts) = Some vs \<Longrightarrow>
   add_parts parts st = (with_fragments vs st, False)"
proof (induction parts arbitrary: vs st)
  case Nil
  then show ?case by simp
next
  case (Cons part parts)
  then obtain v ws where v: "part_fragment part = Some v" and ws: "those (map part_fragment parts) = Some ws"
    and vs: "vs = v # ws"
    by (auto split: option.splits)
  let ?st1 = "st\<lparr>assistantMessageRef := assistantMessageRef st @ v,
                messages := set_assistant (assistantMessageRef st @ v) (messages st)\<rparr>"
  have "add_parts (part # parts) st = add_parts parts ?st1"
    by (simp add: part_fragment_str [OF v])
  also have "\<dots> = (with_fragments ws ?st1, False)" by (rule Cons.IH [OF ws])
  also have "with_fragments ws ?st1 = with_fragments (v # ws) st"
    by (simp add: with_fragments_def)
  finally show ?case by (simp add: vs)
qed

lemma with_fragments_flag:
  "with_fragments vs (st\<lparr>inputDisabled := b\<rparr>) = (with_fragments vs st)\<lparr>inputDisabled := b\<rparr>"
  by (simp add: with_fragments_def)

lemma with_fragments_same_flag:
  "(with_fragments vs st)\<lparr>inputDisabled := inputDisabled st\<rparr> = with_fragments vs st"
  by (simp add: with_fragments_def)

lemma event_fragments_event:
  "event_fragments parsed = Some vs \<Longrightarrow>
   (\<exists>b. process_event parsed st = ((with_fragments vs st)\<lparr>inputDisabled := b\<rparr>, False)) \<and>
   \<not> raises parsed"
proof -
  assume a: "event_fragments parsed = Some vs"
  then have nn: "parsed \<noteq> JNull" by (auto simp: event_fragments_def)
  let ?b = "if get_prop parsed ''event'' = Some (JStr ''thread.message.completed'')
            then False else inputDisabled st"
  have "process_event parsed st = ((with_fragments vs st)\<lparr>inputDisabled := ?b\<rparr>, False)"
  proof (cases "get_prop parsed ''event'' = Some (JStr ''thread.message.delta'')")
    case False
    with a nn have "vs = []" by (simp add: event_fragments_def)
    with False nn show ?thesis by (simp add: process_event_def)
  next
    case ev: True
    show ?thesis
    proof (cases "truthy (content_of parsed)")
      case False
      with a nn ev have "vs = []"
        by (auto simp: event_fragments_def split: option.splits json.splits)
      with False nn ev show ?thesis by (simp add: process_event_def)
    next
      case True
      with a nn ev obtain parts where c: "content_of parsed = Some (JArr parts)"
        and f: "those (map part_fragment parts) = Some vs"
        by (auto simp: event_fragments_def split: option.splits json.splits)
      from nn ev c add_parts_fragments [OF f, of st] show ?thesis
        by (simp add: process_event_def with_fragments_same_flag)
    qed
  qed
  then have "\<exists>b. process_event parsed st = ((with_fragments vs st)\<lparr>inputDisabled := b\<rparr>, False)"
    by blast
  moreover from this process_event_raises [of parsed st] have "\<not> raises parsed" by auto
  ultimately show ?thesis by simp
qed

lemma frame_fragments_lines:
  "those (map (frame_fragments parse) lines) = Some vss \<Longrightarrow>
   (\<exists>b. process_lines parse lines st buffer
      = ((with_fragments (concat vss) st)\<lparr>inputDisabled := b\<rparr>, buffer)) \<and>
   well_formed parse lines"
proof (induction lines arbitrary: vss st)
  case Nil
  then have "process_lines parse [] st buffer
      = ((with_fragments (concat vss) st)\<lparr>inputDisabled := inputDisabled st\<rparr>, buffer)"
    by simp
  then show ?case by (metis well_formed.simps(1))
next
  case (Cons line lines)
  then obtain vs wss where v: "frame_fragments parse line = Some vs"
    and ws: "those (map (frame_fragments parse) lines) = Some wss" and vss: "vss = vs # wss"
    by (auto split: option.splits)
  note IH = Cons.IH [OF ws]
  show ?case
  proof (cases "trim line = []")
    case True
    with v have "vs = []" by (simp add: frame_fragments_def)
    with True IH [of st] vss show ?thesis by (simp add: line_step_blank)
  next
    case nb: False
    with v have nd: "strip_data (trim line) \<noteq> ''[DONE]''"
      by (auto simp: frame_fragments_def split: if_splits)
    with nb v obtain parsed where p: "parse (strip_data (trim line)) = Some parsed"
      and d: "event_fragments parsed = Some vs"
      by (auto simp: frame_fragments_def split: option.splits)
    from event_fragments_event [OF d, of st] obtain b1
      where ev: "process_event parsed st = ((with_fragments vs st)\<lparr>inputDisabled := b1\<rparr>, False)"
        and nr: "\<not> raises parsed" by blast
    let ?st1 = "(with_fragments vs st)\<lparr>inputDisabled := b1\<rparr>"
    from ev nr line_step_parsed [where parse = parse, OF nb nd p, of st buffer]
    have step: "line_step parse line st buffer = (?st1, buffer, Continue)" by simp
    from IH [of ?st1] obtain b2
      where rest: "process_lines parse lines ?st1 buffer
          = ((with_fragments (concat wss) ?st1)\<lparr>inputDisabled := b2\<rparr>, buffer)"
        and wf: "well_formed parse lines" by blast
    have "process_lines parse (line # lines) st buffer
        = ((with_fragments (concat vss) st)\<lparr>inputDisabled := b2\<rparr>, buffer)"
      using step rest vss by (simp add: with_fragments_flag with_fragments_append)
    with wf nb nd p nr show ?thesis by auto
  qed
qed

lemma is_ending_lines:
  "is_ending ending \<Longrightarrow>
   process_lines parse ending st buffer
     = (if ending = [] then st else st\<lparr>inputDisabled := False\<rparr>, buffer) \<and>
   well_formed parse ending"
  by (cases ending) (auto simp: line_step_done process_lines_blanks dest: strip_data_done)

lemma well_formed_join:
  "well_formed parse ls1 \<Longrightarrow> is_ending ending \<Longrightarrow> those (map (frame_fragments parse) ls1) = Some vss
   \<Longrightarrow> well_formed parse (ls1 @ ending)"
proof (induction ls1 arbitrary: vss)
  case Nil
  then show ?case using is_ending_lines by simp
next
  case (Cons line lines)
  then obtain vs wss where v: "frame_fragments parse line = Some vs"
    and ws: "those (map (frame_fragments parse) lines) = Some wss"
    by (auto split: option.splits)
  from v have nd: "trim line \<noteq> [] \<Longrightarrow> strip_data (trim line) \<noteq> ''[DONE]''"
    by (auto simp: frame_fragments_def split: if_splits)
  from Cons.prems(1) nd have "well_formed parse lines"
    by (auto split: if_splits option.splits)
  from Cons.IH [OF this Cons.prems(2) ws] Cons.prems(1) nd show ?case
    by (auto split: if_splits option.splits)
qed

lemma consume_frames:
  assumes lines: "complete_lines (concat chunks) = lines @ ending"
    and ending: "is_ending ending"
    and frames: "those (map (frame_fragments parse) lines) = Some vss"
  shows "(fst (consume parse chunks st []))\<lparr>inputDisabled := False\<rparr>
     = (with_fragments (concat vss) st)\<lparr>inputDisabled := False\<rparr>"
proof -
  from frame_fragments_lines [OF frames] have wfl: "well_formed parse lines" by simp
  from well_formed_join [OF wfl ending frames] have wf: "well_formed parse (lines @ ending)" .
  let ?t = "tail_of (concat chunks)"
  from frame_fragments_lines [OF frames, of st ?t] obtain b
    where first: "process_lines parse lines st ?t
        = ((with_fragments (concat vss) st)\<lparr>inputDisabled := b\<rparr>, ?t)" by blast
  have "consume parse chunks st [] = process_lines parse (lines @ ending) st ?t"
    using consume_lines [of "[]" parse chunks st] wf lines by simp
  also have "\<dots> = process_lines parse ending (fst (process_lines parse lines st ?t)) ?t"
    by (rule process_lines_append [OF wf])
  finally show ?thesis
    using first is_ending_lines [OF ending, of parse "(with_fragments (concat vss) st)\<lparr>inputDisabled := b\<rparr>" ?t]
    by simp
qed

text \<open>
  C3: when the complete lines of a stream are frames of content deltas (events of other
  kinds and blank lines between them allowed), followed by nothing or by the terminator,
  then at the return of
  \<open>sendMessage\<close> the accumulator is the concatenation of all their fragments in the order of
  arrival, whatever the chunk boundaries; if there was at least one content part, the last
  message of the log is the assistant message with that text; and the input is enabled.
  The example stream of the specification ends with the log tail \<open>Hello\<close>.
\<close>

theorem deltas_accumulate:
  assumes nonblank: "\<not> list_all is_space text"
    and tid: "threadId st = Some tid" "tid \<noteq> []"
    and lines: "complete_lines (concat chunks) = lines @ ending"
    and ending: "is_ending ending"
    and frames: "those (map (frame_fragments parse) lines) = Some vss"
  shows "assistantMessageRef (sendMessage parse (Body chunks e) text displayUserMessage st)
       = concat (concat vss) \<and>
     messages (sendMessage parse (Body chunks e) text displayUserMessage st)
       = (if concat vss = [] then messages (begin_submit text displayUserMessage st)
          else set_assistant (concat (concat vss)) (messages (begin_submit text displayUserMessage st))) \<and>
     (concat vss \<noteq> [] \<longrightarrow>
        messages (sendMessage parse (Body chunks e) text displayUserMessage st) \<noteq> [] \<and>
        last (messages (sendMessage parse (Body chunks e) text displayUserMessage st))
          = \<lparr>role = Assistant, text_of = concat (concat vss)\<rparr>) \<and>
     \<not> inputDisabled (sendMessage parse (Body chunks e) text displayUserMessage st)"
proof -
  let ?st1 = "begin_submit text displayUserMessage st"
  let ?st2 = "?st1\<lparr>requests := requests ?st1 @ [message_request tid text],
                   assistantMessageRef := []\<rparr>"
  have "sendMessage parse (Body chunks e) text displayUserMessage st
      = (fst (consume parse chunks ?st2 []))\<lparr>inputDisabled := False\<rparr>"
    using nonblank tid by (simp add: sendMessage_def trim_empty_iff run_request_def Let_def)
  also have "\<dots> = (with_fragments (concat vss) ?st2)\<lparr>inputDisabled := False\<rparr>"
    by (rule consume_frames [OF lines ending frames])
  finally show ?thesis by (auto simp: with_fragments_def)
qed


theorem deltas_accumulate_witness:
  "\<not> list_all is_space ''hola'' \<and> threadId st0 = Some ''thread_1'' \<and> ''thread_1'' \<noteq> [] \<and>
   complete_lines (concat [''data: '' @ frame_hel @ [LF],
       ''data: '' @ frame_lo @ [LF] @ ''data: [DONE]'' @ [LF]])
     = [''data: '' @ frame_hel, ''data: '' @ frame_lo] @ [''data: [DONE]''] \<and>
   is_ending [''data: [DONE]''] \<and>
   those (map (frame_fragments JSON_parse_examples) [''data: '' @ frame_hel, ''data: '' @ frame_lo])
     = Some [[''Hel''], [''lo'']] \<and>
   assistantMessageRef (sendMessage JSON_parse_examples
       (Body [''data: '' @ frame_hel @ [LF], ''data: '' @ frame_lo @ [LF] @ ''data: [DONE]'' @ [LF]] Done)
       ''hola'' True st0) = ''Hello'' \<and>
   messages (sendMessage JSON_parse_examples
       (Body [''data: '' @ frame_hel @ [LF], ''data: '' @ frame_lo @ [LF] @ ''data: [DONE]'' @ [LF]] Done)
       ''hola'' True st0)
     = [\<lparr>role = User, text_of = ''hola''\<rparr>, \<lparr>role = Assistant, text_of = ''Hello''\<rparr>] \<and>
   \<not> inputDisabled (sendMessage JSON_parse_examples
       (Body [''data: '' @ frame_hel @ [LF], ''data: '' @ frame_lo @ [LF] @ ''data: [DONE]'' @ [LF]] Done)
       ''hola'' True st0) \<and>
   complete_lines (concat [''data: '' @ frame_hel @ [CR, LF, CR, LF] @ ''data: '' @ frame_completed,
       [LF] @ frame_lo @ [LF] @ ''data: {'']) 
     = [''data: '' @ frame_hel, [], ''data: '' @ frame_completed, frame_lo] @ [] \<and>
   those (map (frame_fragments JSON_parse_examples)
       [''data: '' @ frame_hel, [], ''data: '' @ frame_completed, frame_lo])
     = Some [[''Hel''], [], [], [''lo'']] \<and>
   messages (sendMessage JSON_parse_examples
       (Body [''data: '' @ frame_hel @ [CR, LF, CR, LF] @ ''data: '' @ frame_completed,
              [LF] @ frame_lo @ [LF] @ ''data: {''] ReadError) ''hola'' False st0)
     = [\<lparr>role = Assistant, text_of = ''Hello''\<rparr>]"
  using deltas_accumulate [of "''hola''" st0 "''thread_1''"
      "[''data: '' @ frame_hel @ [LF], ''data: '' @ frame_lo @ [LF] @ ''data: [DONE]'' @ [LF]]"
      "[''data: '' @ frame_hel, ''data: '' @ frame_lo]" "[''data: [DONE]'']"
      JSON_parse_examples "[[''Hel''], [''lo'']]" Done True]
    deltas_accumulate [of "''hola''" st0 "''thread_1''"
      "[''data: '' @ frame_hel @ [CR, LF, CR, LF] @ ''data: '' @ frame_completed,
        [LF] @ frame_lo @ [LF] @ ''data: {'']"
      "[''data: '' @ frame_hel, [], ''data: '' @ frame_completed, frame_lo]" "[]"
      JSON_parse_examples "[[''Hel''], [], [], [''lo'']]" ReadError False]
  by code_simp

subsection \<open>Events of any shape, continued\<close>

text \<open>
  C10, amended: processing a parsed value is total, and it raises an exception exactly on
  the values of \<open>raises\<close>; the exception is caught, the line becomes the carry-over buffer
  and the loop goes on. It raises none on a value that is not null and is an event of
  another kind, a delta without content, or a delta whose content is an array of parts
  with a string or nothing as text value. A value that is not null and is not a content
  delta with an array or a string that is not empty as content leaves the message log and
  the accumulator unchanged. A content part without a text value contributes the empty
  string.
\<close>

theorem event_processing_total:
  "snd (process_event parsed st) = raises parsed \<and>
   (trim line \<noteq> [] \<and> strip_data (trim line) \<noteq> ''[DONE]'' \<and>
      parse (strip_data (trim line)) = Some parsed \<longrightarrow>
    line_step parse line st buffer
      = (fst (process_event parsed st),
         if raises parsed then strip_data (trim line) else buffer, Continue)) \<and>
   (event_fragments parsed \<noteq> None \<longrightarrow> \<not> raises parsed) \<and>
   (parsed \<noteq> JNull \<and> \<not> delta_with_parts parsed \<longrightarrow>
    messages (fst (process_event parsed st)) = messages st \<and>
    assistantMessageRef (fst (process_event parsed st)) = assistantMessageRef st) \<and>
   (opt_prop (opt_prop (Some part) ''text'') ''value'' = None \<longrightarrow>
    part_content part = JStr [] \<and>
    add_parts (part # parts) st
      = add_parts parts (st\<lparr>messages := set_assistant (assistantMessageRef st) (messages st)\<rparr>))"
proof -
  have "event_fragments parsed \<noteq> None \<longrightarrow> \<not> raises parsed"
    using event_fragments_event [of parsed _ st] by auto
  with process_event_raises [of parsed st] line_step_parsed [of line parse parsed st buffer]
    process_event_frame [of parsed st] add_parts_no_text [of part parts st]
  show ?thesis by blast
qed

theorem event_processing_total_witness:
  "\<not> raises (delta_event [''Hel'']) \<and>
   event_fragments (delta_event [''Hel'']) \<noteq> None \<and>
   line_step JSON_parse_examples (''data: '' @ frame_hel) st0 ''rest''
     = (st0\<lparr>assistantMessageRef := ''Hel'',
            messages := [\<lparr>role = Assistant, text_of = ''Hel''\<rparr>]\<rparr>, ''rest'', Continue) \<and>
   \<not> delta_with_parts (JObj [(''event'', JStr ''thread.message.completed'')]) \<and>
   messages (fst (process_event (JObj [(''event'', JStr ''thread.message.completed'')])
       (st0\<lparr>inputDisabled := True\<rparr>))) = [] \<and>
   opt_prop (opt_prop (Some (JObj [(''type'', JStr ''image'')])) ''text'') ''value'' = None \<and>
   add_parts [JObj [(''type'', JStr ''image'')]] (st0\<lparr>assistantMessageRef := ''Hel''\<rparr>)
     = (st0\<lparr>assistantMessageRef := ''Hel'',
            messages := [\<lparr>role = Assistant, text_of = ''Hel''\<rparr>]\<rparr>, False)"
  using event_processing_total [of "delta_event [''Hel'']" st0 "''data: '' @ frame_hel"
      JSON_parse_examples "''rest''" "JObj [(''type'', JStr ''image'')]" "[]"]
    event_processing_total [of "JObj [(''event'', JStr ''thread.message.completed'')]"
      "st0\<lparr>inputDisabled := True\<rparr>" "[]" JSON_parse_examples "[]"
      "JObj [(''type'', JStr ''image'')]" "[]"]
    event_processing_total [of JNull "st0\<lparr>assistantMessageRef := ''Hel''\<rparr>" "[]"
      JSON_parse_examples "[]" "JObj [(''type'', JStr ''image'')]" "[]"]
  by code_simp

end
